theory Spec2Isabelle
  imports Complex_Main "HOL-Library.Log_Nat"
begin

section \<open>Crossley gate monitor: the function \<open>read_gate\<close> of main.py\<close>

text \<open>
  \<open>read_gate\<close> is an endless loop of cycles. Each cycle listens to the gate motor's LED
  for one window (lines 157-177), maps the time the LED was on to a gate status (lines
  179-181) and then decides whether the status changes and whether a notification is sent
  (lines 183-238). The three parts are embedded as \<open>listen\<close>, \<open>classify\<close> and \<open>decide\<close>.

  What is left out: the \<open>print\<close> calls, the onboard LED, the sleeping, and the body of
  \<open>notify\<close> (the HTTP request); a call of \<open>notify\<close> is recorded as the message it is
  given. What the environment supplies is an argument: the readings of the input pin
  (\<open>pin i\<close> is the \<open>i\<close>-th reading), and the readings of \<open>time.time()\<close>.
\<close>

subsection \<open>Floating-point addition\<close>

text \<open>
  \<open>time_count\<close> and \<open>led_on_count\<close> are Python floats that grow by \<open>+= 0.1\<close>. One tenth
  is not a binary fraction, so neither the literal \<open>0.1\<close> nor the sums are exact, and the
  count of ticks in a window depends on the rounding. Floats are modelled by their exact
  rational value; an operation computes the exact result and rounds it to the nearest
  number with \<open>p\<close> significant bits, ties to the even significand (IEEE 754
  round-to-nearest-even; exponent range and subnormals play no role for the magnitudes
  that occur here). \<open>p = 24\<close> is the single precision of MicroPython on the ESP32,
  \<open>p = 53\<close> the double precision of CPython and of MicroPython's double builds.
\<close>

definition round_even :: "rat \<Rightarrow> int" where
  "round_even x = (let f = \<lfloor>x\<rfloor>; r = x - of_int f in
     if r < 1 / 2 then f else if 1 / 2 < r then f + 1 else if even f then f else f + 1)"

text \<open>The binary exponent \<open>e\<close> of a positive \<open>x\<close>: \<open>2^e \<le> x < 2^(e+1)\<close>.\<close>

definition ilog2 :: "rat \<Rightarrow> int" where
  "ilog2 x = (if 1 \<le> x then bitlen \<lfloor>x\<rfloor> - 1 else - bitlen (\<lceil>1 / x\<rceil> - 1))"

definition fl :: "nat \<Rightarrow> rat \<Rightarrow> rat" where
  "fl p x = (if x = 0 then 0 else
     let u = power_int 2 (ilog2 \<bar>x\<bar> - (int p - 1)) in of_int (round_even (x / u)) * u)"

definition fadd :: "nat \<Rightarrow> rat \<Rightarrow> rat \<Rightarrow> rat" where
  "fadd p x y = fl p (x + y)"

text \<open>The literal \<open>0.1\<close>.\<close>

definition tenth :: "nat \<Rightarrow> rat" where
  "tenth p = fl p (1 / 10)"

definition float_format :: "nat \<Rightarrow> bool" where
  "float_format p = (p = 24 \<or> p = 53)"

subsection \<open>The sampling window (lines 157-177)\<close>

record window =
  time_count :: rat
  led_on_count :: rat

definition window0 :: window where
  "window0 = \<lparr>time_count = 0, led_on_count = 0\<rparr>"

text \<open>
  One pass through the body of \<open>while time_count < 5\<close>, the pin reading \<open>b\<close>: the
  \<open>if\<close> statement of lines 162-175, then the increment of line 176.
\<close>

definition read_pin :: "nat \<Rightarrow> bool \<Rightarrow> window \<Rightarrow> window" where
  "read_pin p b w =
     (if b then
        (if 0 < time_count w \<and> led_on_count w = 0
         then w\<lparr>time_count := - tenth p\<rparr>
         else w\<lparr>led_on_count := fadd p (led_on_count w) (tenth p)\<rparr>)
      else w)"

definition tick :: "nat \<Rightarrow> bool \<Rightarrow> window \<Rightarrow> window" where
  "tick p b w =
     (let w1 = read_pin p b w in w1\<lparr>time_count := fadd p (time_count w1) (tenth p)\<rparr>)"

text \<open>
  The loop itself. It reads the pin once per pass, from reading \<open>i\<close> on, and yields the
  window it ends with and the number of the next reading. \<open>None\<close>: the loop never ends.
\<close>

partial_function (option) listen ::
  "nat \<Rightarrow> (nat \<Rightarrow> bool) \<Rightarrow> nat \<Rightarrow> window \<Rightarrow> (window \<times> nat) option" where
  "listen p pin i w =
     (if time_count w < 5 then listen p pin (Suc i) (tick p (pin i) w) else Some (w, i))"

text \<open>The window after at most \<open>n\<close> passes of the loop.\<close>

fun passes :: "nat \<Rightarrow> (nat \<Rightarrow> bool) \<Rightarrow> nat \<Rightarrow> nat \<Rightarrow> window \<Rightarrow> window" where
  "passes p pin i 0 w = w"
| "passes p pin i (Suc n) w =
     (if time_count w < 5 then passes p pin (Suc i) n (tick p (pin i) w) else w)"

text \<open>The input that is off, on, off, on, ...: a new reading every tick.\<close>

definition flicker :: "nat \<Rightarrow> bool" where
  "flicker i = odd i"

text \<open>The input that is on at every reading.\<close>

definition steady_on :: "nat \<Rightarrow> bool" where
  "steady_on i = True"

text \<open>
  Two pulses of five readings, at readings 0-4 and 102-106: the LED is on for half a
  second at the start of the first and of the third window of 51 readings.
\<close>

definition pulses :: "nat \<Rightarrow> bool" where
  "pulses i = (i < 5 \<or> (102 \<le> i \<and> i < 107))"

text \<open>How many of the \<open>n\<close> readings from reading \<open>i\<close> on are asserted.\<close>

fun ons :: "(nat \<Rightarrow> bool) \<Rightarrow> nat \<Rightarrow> nat \<Rightarrow> nat" where
  "ons pin i 0 = 0"
| "ons pin i (Suc n) = (if pin i then 1 else 0) + ons pin (Suc i) n"

text \<open>The value of a counter after \<open>k\<close> increments from zero.\<close>

primrec acc :: "nat \<Rightarrow> nat \<Rightarrow> rat" where
  "acc p 0 = 0"
| "acc p (Suc k) = fadd p (acc p k) (tenth p)"

definition counted :: "nat \<Rightarrow> nat \<Rightarrow> nat \<Rightarrow> window" where
  "counted p n k = \<lparr>time_count = acc p n, led_on_count = acc p k\<rparr>"

text \<open>
  Rounding on integers, for sums of multiples of one power of two: \<open>rdiv m d\<close> is the
  integer nearest to \<open>m / d\<close> (ties to even), \<open>rnd p m\<close> keeps \<open>p\<close> significant bits of
  \<open>m\<close>, and \<open>iacc p c k\<close> is \<open>acc p k\<close> in units of which \<open>0.1\<close> is \<open>c\<close>.
\<close>

definition rdiv :: "int \<Rightarrow> int \<Rightarrow> int" where
  "rdiv m d = (let q = m div d; r = m mod d in
     if 2 * r < d then q else if d < 2 * r then q + 1 else if even q then q else q + 1)"

definition rnd :: "nat \<Rightarrow> int \<Rightarrow> int" where
  "rnd p m = (let s = bitlen \<bar>m\<bar> - int p in
     if s \<le> 0 then m else rdiv m (2 ^ nat s) * 2 ^ nat s)"

primrec iacc :: "nat \<Rightarrow> int \<Rightarrow> nat \<Rightarrow> int" where
  "iacc p c 0 = 0"
| "iacc p c (Suc k) = rnd p (iacc p c k + c)"

fun climbs :: "nat \<Rightarrow> int \<Rightarrow> nat \<Rightarrow> int \<Rightarrow> bool" where
  "climbs p c 0 x = True"
| "climbs p c (Suc n) x = (x < rnd p (x + c) \<and> climbs p c n (rnd p (x + c)))"

subsection \<open>The status tables (lines 129-147)\<close>

text \<open>
  The parallel lists of \<open>read_gate\<close>. A band \<open>[lo, hi]\<close> of \<open>gate_status_time\<close> is a pair.
  A status is an integer and indexes the other lists.
\<close>

record config =
  gate_status_options :: "int list"
  gate_status_string :: "string list"
  gate_status_string_repeat :: "string list"
  gate_status_time :: "(rat \<times> rat) list"
  gate_status_report :: "int list"
  gate_status_wait :: "int list"
  gate_status_confirm :: "int list"

definition gate_tables :: config where
  "gate_tables = \<lparr>
     gate_status_options = [0, 1, 2],
     gate_status_string =
       [''Gate closed'', ''Gate OPEN'', ''Gate has an AC power or battery failure''],
     gate_status_string_repeat =
       [''Gate closed'', ''Gate still OPEN'', ''Gate has an AC power or battery failure''],
     gate_status_time = [(0, 0), (2, 6), (1 / 2, 3 / 2)],
     gate_status_report = [0, 1, 1],
     gate_status_wait = [0, 300, 1800],
     gate_status_confirm = [1, 0, 1]\<rparr>"

text \<open>
  The tables with one entry changed: status 1 (open) is not reported. Open is then a
  status that needs no confirmation and is not reported.
\<close>

definition quiet_tables :: config where
  "quiet_tables = gate_tables\<lparr>gate_status_report := [0, 0, 1]\<rparr>"


text \<open>
  The lists belong together: they have one length, and every status is an index of
  them. On such tables no subscript of the source is out of range (lemma
  \<open>classify_in_range\<close>): a status is 0 or an entry of \<open>gate_status_options\<close>. The theorems
  about tables other than \<open>gate_tables\<close> are about such tables.
\<close>

definition well_formed :: "config \<Rightarrow> bool" where
  "well_formed cfg =
     (let n = length (gate_status_options cfg) in
      0 < n \<and>
      length (gate_status_string cfg) = n \<and> length (gate_status_string_repeat cfg) = n \<and>
      length (gate_status_time cfg) = n \<and> length (gate_status_report cfg) = n \<and>
      length (gate_status_wait cfg) = n \<and> length (gate_status_confirm cfg) = n \<and>
      (\<forall>s\<in>set (gate_status_options cfg). 0 \<le> s \<and> s < int n))"

text \<open>\<open>xs[s]\<close> for a status \<open>s\<close>.\<close>

definition sub :: "'a list \<Rightarrow> int \<Rightarrow> 'a" where
  "sub xs s = xs ! nat s"

text \<open>A flag of the tables is an integer, tested as Python does: true unless zero.\<close>

definition flag :: "int list \<Rightarrow> int \<Rightarrow> bool" where
  "flag xs s = (sub xs s \<noteq> 0)"

subsection \<open>Classification (lines 159, 179-181)\<close>

definition in_band :: "config \<Rightarrow> rat \<Rightarrow> nat \<Rightarrow> bool" where
  "in_band cfg d x =
     (fst (gate_status_time cfg ! x) \<le> d \<and> d \<le> snd (gate_status_time cfg ! x))"

text \<open>The body of the \<open>for\<close> loop, \<open>new\<close> the value of \<open>new_gate_status\<close>.\<close>

definition scan_step :: "config \<Rightarrow> rat \<Rightarrow> nat \<Rightarrow> int \<Rightarrow> int" where
  "scan_step cfg d x new = (if in_band cfg d x then gate_status_options cfg ! x else new)"

definition classify :: "config \<Rightarrow> rat \<Rightarrow> int" where
  "classify cfg d = fold (scan_step cfg d) [0..<length (gate_status_options cfg)] 0"

subsection \<open>The decision (lines 183-238)\<close>

record monitor =
  gate_status :: int
  gate_status_tobeconfirmed :: int
  gate_status_lastupdate :: int

text \<open>The state before the first cycle, \<open>t0\<close> the clock at line 152.\<close>

definition init :: "int \<Rightarrow> monitor" where
  "init t0 = \<lparr>gate_status = 0, gate_status_tobeconfirmed = - 1, gate_status_lastupdate = t0\<rparr>"

text \<open>
  \<open>now\<close> is the first reading of the clock in the cycle (line 194, 215 or 232). Only the
  re-notification reads the clock a second time, after \<open>notify\<close> has returned (line 201):
  \<open>later\<close>. A reading is a number of whole seconds, as \<open>time.time()\<close> of MicroPython
  returns it. The result is the new state and the messages given to \<open>notify\<close>.
\<close>

definition decide :: "config \<Rightarrow> int \<Rightarrow> int \<Rightarrow> int \<Rightarrow> monitor \<Rightarrow> monitor \<times> string list" where
  "decide cfg new now later s =
     (if new = gate_status s then
        (if flag (gate_status_report cfg) new then
           (if 0 \<le> now - (gate_status_lastupdate s + sub (gate_status_wait cfg) new)
            then (s\<lparr>gate_status_lastupdate := later\<rparr>, [sub (gate_status_string_repeat cfg) new])
            else (s, []))
         else (s, []))
      else if flag (gate_status_confirm cfg) new then
        (if gate_status_tobeconfirmed s = new then
           (s\<lparr>gate_status := new, gate_status_lastupdate := now,
               gate_status_tobeconfirmed := - 1\<rparr>,
            if flag (gate_status_report cfg) new then [sub (gate_status_string cfg) new] else [])
         else (s\<lparr>gate_status_tobeconfirmed := new\<rparr>, []))
      else
        (if flag (gate_status_report cfg) new then
           (s\<lparr>gate_status := new, gate_status_lastupdate := now,
               gate_status_tobeconfirmed := - 1\<rparr>,
            [sub (gate_status_string cfg) new])
         else (s\<lparr>gate_status := new, gate_status_lastupdate := now\<rparr>, [])))"

text \<open>One cycle after the window: \<open>d\<close> is the window's \<open>led_on_count\<close>.\<close>

definition cycle :: "config \<Rightarrow> rat \<times> int \<times> int \<Rightarrow> monitor \<Rightarrow> monitor \<times> string list" where
  "cycle cfg x s = (case x of (d, now, later) \<Rightarrow> decide cfg (classify cfg d) now later s)"

text \<open>Any number of cycles: the state they end in and all messages sent, in order.\<close>

fun run :: "config \<Rightarrow> (rat \<times> int \<times> int) list \<Rightarrow> monitor \<Rightarrow> monitor \<times> string list" where
  "run cfg [] s = (s, [])"
| "run cfg (x # xs) s =
     (case cycle cfg x s of (s1, a) \<Rightarrow> (case run cfg xs s1 of (s2, b) \<Rightarrow> (s2, a @ b)))"

text \<open>The messages a status can be reported with.\<close>

definition labels :: "config \<Rightarrow> int \<Rightarrow> string set" where
  "labels cfg st = {sub (gate_status_string cfg) st, sub (gate_status_string_repeat cfg) st}"

definition pending_ok :: "config \<Rightarrow> monitor \<Rightarrow> bool" where
  "pending_ok cfg s =
     ((gate_status_tobeconfirmed s = - 1 \<or>
       (gate_status_tobeconfirmed s \<in> set (gate_status_options cfg) \<and>
        flag (gate_status_confirm cfg) (gate_status_tobeconfirmed s))) \<and>
      gate_status_tobeconfirmed s \<noteq> gate_status s)"

subsection \<open>The whole of \<open>read_gate\<close>\<close>

text \<open>
  The first \<open>n\<close> cycles of the endless loop of line 155: cycle number \<open>c\<close> listens from
  reading \<open>i\<close> on and reads the clock as \<open>clock c\<close> (the first reading, and the second
  one of line 201). \<open>None\<close>: a window never ends.
\<close>

fun read_gate ::
  "nat \<Rightarrow> config \<Rightarrow> (nat \<Rightarrow> bool) \<Rightarrow> (nat \<Rightarrow> int \<times> int) \<Rightarrow> nat \<Rightarrow> nat \<Rightarrow> nat \<Rightarrow> monitor \<Rightarrow>
     (monitor \<times> string list) option" where
  "read_gate p cfg pin clock 0 c i s = Some (s, [])"
| "read_gate p cfg pin clock (Suc n) c i s =
     (case listen p pin i window0 of
        None \<Rightarrow> None
      | Some (w, i') \<Rightarrow>
          (case cycle cfg (led_on_count w, clock c) s of
             (s1, a) \<Rightarrow>
               (case read_gate p cfg pin clock n (Suc c) i' s1 of
                  None \<Rightarrow> None
                | Some (s2, b) \<Rightarrow> Some (s2, a @ b))))"

text \<open>A clock that is read every six seconds, and again a second later.\<close>

definition clock6 :: "nat \<Rightarrow> int \<times> int" where
  "clock6 c = (6 * int c, 6 * int c + 1)"

section \<open>Rounding\<close>

lemma bitlen_eqI:
  assumes "2 ^ k \<le> n" "n < 2 ^ Suc k"
  shows "bitlen n = int k + 1"
proof -
  have "bitlen n \<le> int k + 1"
    using assms(2) by (simp add: bitlen_le_iff_power nat_add_distrib)
  moreover have "int k + 1 \<le> bitlen n"
    using assms(1) by (simp add: bitlen_ge_iff_power nat_add_distrib)
  ultimately show ?thesis by simp
qed

lemma ilog2_eqI:
  assumes "power_int 2 e \<le> y" "y < power_int 2 (e + 1)"
  shows "ilog2 y = e"
proof (cases "0 \<le> e")
  case True
  define k where "k = nat e"
  have e: "e = int k" using True by (simp add: k_def)
  have lo: "(2::rat) ^ k \<le> y" and hi: "y < 2 ^ Suc k"
    using assms by (simp_all add: e power_int_add)
  have "(1::rat) \<le> 2 ^ k" by simp
  then have y1: "1 \<le> y" using lo by linarith
  have "2 ^ k \<le> \<lfloor>y\<rfloor>"
    using lo by (simp add: le_floor_iff)
  moreover have "\<lfloor>y\<rfloor> < 2 ^ Suc k"
    using hi by (simp add: floor_less_iff)
  ultimately have "bitlen \<lfloor>y\<rfloor> = int k + 1" by (rule bitlen_eqI)
  then show ?thesis using y1 by (simp add: ilog2_def e)
next
  case False
  define k where "k = nat (- e) - 1"
  have e: "e = - int (Suc k)" using False by (simp add: k_def)
  have pm: "power_int (2::rat) (- int n) = 1 / 2 ^ n" for n
    by (simp add: power_int_minus field_simps)
  have "power_int 2 (- int (Suc k)) \<le> y"
    using assms(1) unfolding e .
  then have lo: "1 / 2 ^ Suc k \<le> y"
    unfolding pm .
  have "e + 1 = - int k" by (simp add: e)
  then have "y < power_int 2 (- int k)"
    using assms(2) by simp
  then have hi: "y < 1 / 2 ^ k"
    unfolding pm .
  have "(0::rat) < 1 / 2 ^ Suc k" by simp
  then have ypos: "0 < y" using lo by linarith
  have "1 / (2::rat) ^ k \<le> 1" by (simp add: field_simps)
  then have y1: "\<not> 1 \<le> y" using hi by linarith
  have a: "1 / y \<le> 2 ^ Suc k"
    using lo ypos by (simp add: field_simps)
  have b: "2 ^ k < 1 / y"
    using hi ypos by (simp add: field_simps)
  have "\<lceil>1 / y\<rceil> \<le> 2 ^ Suc k"
    using a by (simp add: ceiling_le_iff)
  moreover have "2 ^ k < \<lceil>1 / y\<rceil>"
    using b by (simp add: less_ceiling_iff)
  ultimately have "2 ^ k \<le> \<lceil>1 / y\<rceil> - 1" "\<lceil>1 / y\<rceil> - 1 < 2 ^ Suc k"
    by simp_all
  then have "bitlen (\<lceil>1 / y\<rceil> - 1) = int k + 1"
    by (rule bitlen_eqI)
  then show ?thesis using y1 by (simp add: ilog2_def e)
qed

lemma round_even_of_int: "round_even (of_int z) = z"
  by (simp add: round_even_def)

lemma round_even_div:
  assumes "0 < d"
  shows "round_even (of_int m / of_int d) = rdiv m d"
proof -
  have f: "\<lfloor>(of_int m :: rat) / of_int d\<rfloor> = m div d"
    by (simp add: floor_divide_of_int_eq)
  have "m = m div d * d + m mod d" by simp
  then have "(of_int m :: rat) = of_int (m div d * d + m mod d)"
    by (simp only:)
  then have "(of_int m :: rat) = of_int (m div d) * of_int d + of_int (m mod d)"
    by (simp only: of_int_add of_int_mult)
  then have "(of_int m :: rat) / of_int d = of_int (m div d) + of_int (m mod d) / of_int d"
    using assms by (simp add: field_simps)
  then have r: "(of_int m :: rat) / of_int d - of_int (m div d) = of_int (m mod d) / of_int d"
    by simp
  have c1: "(of_int (m mod d) / of_int d < (1::rat) / 2) = (2 * (m mod d) < d)"
  proof -
    have "(of_int (m mod d) / of_int d < (1::rat) / 2) = ((of_int (2 * (m mod d)) :: rat) < of_int d)"
      using assms by (simp add: field_simps)
    then show ?thesis by (simp only: of_int_less_iff)
  qed
  have c2: "((1::rat) / 2 < of_int (m mod d) / of_int d) = (d < 2 * (m mod d))"
  proof -
    have "((1::rat) / 2 < of_int (m mod d) / of_int d) = ((of_int d :: rat) < of_int (2 * (m mod d)))"
      using assms by (simp add: field_simps)
    then show ?thesis by (simp only: of_int_less_iff)
  qed
  show ?thesis
    unfolding round_even_def rdiv_def Let_def f r c1 c2 by simp
qed


lemma fl_dyadic: "fl p (of_int m / 2 ^ q) = of_int (rnd p m) / 2 ^ q"
proof (cases "m = 0")
  case True
  then show ?thesis by (simp add: fl_def rnd_def)
next
  case False
  define x :: rat where "x = of_int m / 2 ^ q"
  define j where "j = nat (bitlen \<bar>m\<bar> - 1)"
  have mpos: "0 < \<bar>m\<bar>" using False by simp
  have "bitlen \<bar>m\<bar> \<noteq> 0" using mpos by (simp add: bitlen_eq_zero_iff)
  then have L: "bitlen \<bar>m\<bar> = int j + 1"
    using bitlen_nonneg [of "\<bar>m\<bar>"] by (simp add: j_def)
  have b: "2 ^ j \<le> \<bar>m\<bar>" "\<bar>m\<bar> < 2 ^ Suc j"
    using bitlen_bounds [OF mpos] by (simp_all add: L nat_add_distrib)
  have xne: "x \<noteq> 0" using False by (simp add: x_def)
  have ax: "\<bar>x\<bar> = of_int \<bar>m\<bar> / 2 ^ q" by (simp add: x_def)
  have pd: "power_int (2::rat) (int a - int c) = 2 ^ a / 2 ^ c" for a c
    by (simp add: power_int_diff)
  have "(2::rat) ^ j \<le> of_int \<bar>m\<bar>"
    using b(1) by (metis of_int_le_iff of_int_numeral of_int_power)
  then have lo: "power_int 2 (int j - int q) \<le> \<bar>x\<bar>"
    unfolding pd ax by (simp add: divide_le_cancel)
  have "(of_int \<bar>m\<bar> :: rat) < 2 ^ Suc j"
    using b(2) by (metis of_int_less_iff of_int_numeral of_int_power)
  moreover have "int j - int q + 1 = int (Suc j) - int q" by simp
  ultimately have hi: "\<bar>x\<bar> < power_int 2 (int j - int q + 1)"
    unfolding ax by (simp only: pd divide_strict_right_mono zero_less_power zero_less_numeral)
  have e: "ilog2 \<bar>x\<bar> = int j - int q"
    using lo hi by (rule ilog2_eqI)
  show ?thesis
  proof (cases "bitlen \<bar>m\<bar> - int p \<le> 0")
    case True
    define t where "t = nat (int p - bitlen \<bar>m\<bar>)"
    have pm: "power_int (2::rat) (- int n) = 1 / 2 ^ n" for n
      by (simp add: power_int_minus field_simps)
    have "int j - int q - (int p - 1) = - int (t + q)"
      using True by (simp add: t_def L)
    then have "power_int (2::rat) (ilog2 \<bar>x\<bar> - (int p - 1)) = 1 / 2 ^ (t + q)"
      by (simp only: e pm)
    then have u: "power_int (2::rat) (ilog2 \<bar>x\<bar> - (int p - 1)) = 1 / (2 ^ t * 2 ^ q)"
      by (simp only: power_add)
    have "x / (1 / (2 ^ t * 2 ^ q)) = of_int (m * 2 ^ t)"
      by (simp add: x_def)
    then have "fl p x = of_int (m * 2 ^ t) * (1 / (2 ^ t * 2 ^ q))"
      using xne by (simp only: fl_def u Let_def round_even_of_int if_False)
    also have "\<dots> = of_int m / 2 ^ q" by simp
    finally show ?thesis using True by (simp add: rnd_def x_def)
  next
    case False
    define t where "t = nat (bitlen \<bar>m\<bar> - int p)"
    have "int j - int q - (int p - 1) = int t - int q"
      using False by (simp add: t_def L)
    then have u: "power_int (2::rat) (ilog2 \<bar>x\<bar> - (int p - 1)) = 2 ^ t / 2 ^ q"
      by (simp only: e pd)
    have "x / (2 ^ t / 2 ^ q) = of_int m / of_int (2 ^ t)"
      by (simp add: x_def)
    moreover have "round_even (of_int m / of_int (2 ^ t)) = rdiv m (2 ^ t)"
      by (rule round_even_div) simp
    ultimately have "fl p x = of_int (rdiv m (2 ^ t)) * (2 ^ t / 2 ^ q)"
      using xne by (simp only: fl_def u Let_def if_False)
    also have "\<dots> = of_int (rdiv m (2 ^ t) * 2 ^ t) / 2 ^ q" by simp
    finally show ?thesis using False by (simp add: rnd_def x_def t_def Let_def)
  qed
qed

lemma fadd_dyadic:
  "fadd p (of_int a / 2 ^ q) (of_int b / 2 ^ q) = of_int (rnd p (a + b)) / 2 ^ q"
proof -
  have "(of_int a :: rat) / 2 ^ q + of_int b / 2 ^ q = of_int (a + b) / 2 ^ q"
    by (simp add: add_divide_distrib)
  then show ?thesis by (simp only: fadd_def fl_dyadic)
qed

lemma acc_iacc:
  assumes "tenth p = of_int c / 2 ^ q"
  shows "acc p k = of_int (iacc p c k) / 2 ^ q"
proof (induction k)
  case 0
  show ?case by simp
next
  case (Suc k)
  show ?case by (simp only: acc.simps iacc.simps Suc assms fadd_dyadic)
qed


text \<open>How far a rounded result is from the exact one.\<close>

lemma ilog2_le:
  assumes "0 < y"
  shows "power_int 2 (ilog2 y) \<le> y"
proof (cases "1 \<le> y")
  case True
  then have n: "0 < \<lfloor>y\<rfloor>" by linarith
  define j where "j = nat (bitlen \<lfloor>y\<rfloor> - 1)"
  have "bitlen \<lfloor>y\<rfloor> \<noteq> 0" using n by (simp add: bitlen_eq_zero_iff)
  then have L: "bitlen \<lfloor>y\<rfloor> - 1 = int j"
    using bitlen_nonneg [of "\<lfloor>y\<rfloor>"] by (simp add: j_def)
  have "2 ^ j \<le> \<lfloor>y\<rfloor>" using bitlen_bounds [OF n] by (simp add: j_def)
  then have "(2::rat) ^ j \<le> of_int \<lfloor>y\<rfloor>"
    by (metis of_int_le_iff of_int_numeral of_int_power)
  also have "\<dots> \<le> y" by simp
  finally show ?thesis using True by (simp add: ilog2_def L)
next
  case False
  then have y1: "y < 1" by simp
  define c where "c = \<lceil>1 / y\<rceil> - 1"
  define j where "j = nat (bitlen c)"
  have "1 < 1 / y" using assms y1 by (simp add: field_simps)
  then have "1 < \<lceil>1 / y\<rceil>" by (simp add: less_ceiling_iff)
  then have c: "0 < c" by (simp add: c_def)
  have L: "bitlen c = int j" using bitlen_nonneg [of c] by (simp add: j_def)
  have "c < 2 ^ j" using bitlen_bounds [OF c] by (simp add: j_def)
  then have "\<lceil>1 / y\<rceil> \<le> 2 ^ j" by (simp add: c_def)
  then have "1 / y \<le> 2 ^ j" by (simp add: ceiling_le_iff)
  then have "1 / 2 ^ j \<le> y" using assms by (simp add: field_simps)
  moreover have "power_int (2::rat) (- int j) = 1 / 2 ^ j"
    by (simp add: power_int_minus field_simps)
  moreover have "ilog2 y = - int j"
    using False L by (simp add: ilog2_def c_def)
  ultimately show ?thesis by simp
qed

lemma round_even_error: "\<bar>of_int (round_even x) - x\<bar> \<le> 1 / 2"
proof -
  have "of_int \<lfloor>x\<rfloor> \<le> x" "x < of_int \<lfloor>x\<rfloor> + 1" by linarith+
  then show ?thesis by (auto simp add: round_even_def Let_def)
qed

lemma fl_error: "\<bar>fl p x - x\<bar> \<le> \<bar>x\<bar> / 2 ^ p"
proof (cases "x = 0")
  case True
  then show ?thesis by (simp add: fl_def)
next
  case False
  define e where "e = ilog2 \<bar>x\<bar>"
  define u :: rat where "u = power_int 2 (e - (int p - 1))"
  have upos: "0 < u" by (simp add: u_def)
  have "e - (int p - 1) = (e + 1) - int p" by simp
  moreover have "power_int (2::rat) ((e + 1) - int p) = power_int 2 (e + 1) / power_int 2 (int p)"
    by (rule power_int_diff) simp
  ultimately have "u = power_int 2 (e + 1) / power_int 2 (int p)"
    unfolding u_def by (simp only:)
  then have u: "u = 2 * power_int 2 e / 2 ^ p"
    by (simp add: power_int_add)
  have le: "power_int 2 e \<le> \<bar>x\<bar>"
    unfolding e_def using False by (intro ilog2_le) simp
  have "fl p x - x = (of_int (round_even (x / u)) - x / u) * u"
    using False upos by (simp add: fl_def Let_def u_def e_def field_simps)
  then have "\<bar>fl p x - x\<bar> = \<bar>of_int (round_even (x / u)) - x / u\<bar> * u"
    using upos by (simp add: abs_mult)
  also have "\<dots> \<le> 1 / 2 * u"
    using round_even_error [of "x / u"] upos by (intro mult_right_mono) simp_all
  also have "\<dots> = power_int 2 e / 2 ^ p" by (simp add: u)
  also have "\<dots> \<le> \<bar>x\<bar> / 2 ^ p" using le by (simp add: divide_right_mono)
  finally show ?thesis .
qed

lemma tenth_error: "\<bar>tenth p - 1 / 10\<bar> \<le> 1 / 10 / 2 ^ p"
  using fl_error [of p "1 / 10"] by (simp add: tenth_def)

lemma fadd_tenth_error: "\<bar>fadd p x (tenth p) - (x + 1 / 10)\<bar> \<le> (\<bar>x\<bar> + 3 / 10) / 2 ^ p"
proof -
  have p: "(1::rat) \<le> 2 ^ p" by simp
  have t: "\<bar>tenth p - 1 / 10\<bar> \<le> 1 / 10 / 2 ^ p" by (rule tenth_error)
  have "1 / 10 / (2::rat) ^ p \<le> 1 / 10" using p by (simp add: field_simps)
  then have "\<bar>tenth p\<bar> \<le> 1 / 5" using t by linarith
  then have s: "\<bar>x + tenth p\<bar> \<le> \<bar>x\<bar> + 1 / 5" by linarith
  have "\<bar>fadd p x (tenth p) - (x + tenth p)\<bar> \<le> \<bar>x + tenth p\<bar> / 2 ^ p"
    unfolding fadd_def by (rule fl_error)
  also have "\<dots> \<le> (\<bar>x\<bar> + 1 / 5) / 2 ^ p" using s by (simp add: divide_right_mono)
  finally have a: "\<bar>fadd p x (tenth p) - (x + tenth p)\<bar> \<le> (\<bar>x\<bar> + 1 / 5) / 2 ^ p" .
  have "\<bar>fadd p x (tenth p) - (x + 1 / 10)\<bar> \<le>
      \<bar>fadd p x (tenth p) - (x + tenth p)\<bar> + \<bar>tenth p - 1 / 10\<bar>" by linarith
  also have "\<dots> \<le> (\<bar>x\<bar> + 1 / 5) / 2 ^ p + 1 / 10 / 2 ^ p" using a t by linarith
  also have "\<dots> = (\<bar>x\<bar> + 3 / 10) / 2 ^ p"
    by (simp add: field_simps)
  finally show ?thesis .
qed

subsection \<open>The sums of both formats, computed\<close>

lemma tenth_24: "tenth 24 = of_int 13421773 / 2 ^ 27"
  unfolding tenth_def by code_simp

lemma tenth_53: "tenth 53 = of_int 7205759403792794 / 2 ^ 56"
  unfolding tenth_def by code_simp

lemma climbs_24: "climbs 24 13421773 51 0"
  by code_simp

lemma climbs_53: "climbs 53 7205759403792794 51 0"
  by code_simp

lemma iacc_24_50: "iacc 24 13421773 50 = 671088320"
  by code_simp

lemma iacc_53_50: "iacc 53 7205759403792794 50 = 360287970189639552"
  by code_simp

lemma iacc_24_51: "iacc 24 13421773 51 = 684510080"
  by code_simp

lemma iacc_53_51: "iacc 53 7205759403792794 51 = 367493729593432320"
  by code_simp

lemma climbs_iacc:
  "climbs p c n (iacc p c k) \<Longrightarrow> j < n \<Longrightarrow> iacc p c (k + j) < iacc p c (Suc (k + j))"
proof (induction n arbitrary: k j)
  case 0
  then show ?case by simp
next
  case (Suc n)
  show ?case
  proof (cases j)
    case 0
    then show ?thesis using Suc.prems(1) by simp
  next
    case (Suc j')
    have "climbs p c n (iacc p c (Suc k))" using Suc.prems(1) by simp
    moreover have "j' < n" using Suc.prems(2) \<open>j = Suc j'\<close> by simp
    ultimately have "iacc p c (Suc k + j') < iacc p c (Suc (Suc k + j'))"
      by (rule Suc.IH)
    then show ?thesis using \<open>j = Suc j'\<close> by simp
  qed
qed

lemma acc_less_dyadic:
  assumes "tenth p = of_int c / 2 ^ q"
  shows "(acc p j < acc p k) = (iacc p c j < iacc p c k)"
  by (simp add: acc_iacc [OF assms] divide_less_cancel)

lemma acc_step:
  assumes "float_format p" "k \<le> 50"
  shows "acc p k < acc p (Suc k)"
proof -
  have k: "k < 51" using assms(2) by simp
  from assms(1) consider "p = 24" | "p = 53" unfolding float_format_def by blast
  then show ?thesis
  proof cases
    case 1
    have "iacc 24 13421773 (0 + k) < iacc 24 13421773 (Suc (0 + k))"
      using climbs_24 k by (intro climbs_iacc) simp_all
    then have "iacc 24 13421773 k < iacc 24 13421773 (Suc k)"
      by (simp del: iacc.simps)
    then show ?thesis unfolding 1 acc_less_dyadic [OF tenth_24] .
  next
    case 2
    have "iacc 53 7205759403792794 (0 + k) < iacc 53 7205759403792794 (Suc (0 + k))"
      using climbs_53 k by (intro climbs_iacc) simp_all
    then have "iacc 53 7205759403792794 k < iacc 53 7205759403792794 (Suc k)"
      by (simp del: iacc.simps)
    then show ?thesis unfolding 2 acc_less_dyadic [OF tenth_53] .
  qed
qed

lemma acc_50: "float_format p \<Longrightarrow> acc p 50 < 5"
  unfolding float_format_def
  by (auto simp add: acc_iacc [OF tenth_24] acc_iacc [OF tenth_53] iacc_24_50 iacc_53_50)

lemma acc_51: "float_format p \<Longrightarrow> 5 \<le> acc p 51"
  unfolding float_format_def
  by (auto simp add: acc_iacc [OF tenth_24] acc_iacc [OF tenth_53] iacc_24_51 iacc_53_51)




lemma fadd_53_values:
  "fadd 53 3 (tenth 53) = 6980579422424269 / 2251799813685248"
  "fadd 53 2 (tenth 53) = 4728779608739021 / 2251799813685248"
proof -
  have a: "rnd 53 (216172782113783808 + 7205759403792794) = 223378541517576608" by code_simp
  have b: "rnd 53 (144115188075855872 + 7205759403792794) = 151320947479648672" by code_simp
  have t3: "(3::rat) = of_int 216172782113783808 / 2 ^ 56" by simp
  have t2: "(2::rat) = of_int 144115188075855872 / 2 ^ 56" by simp
  have "fadd 53 (of_int 216172782113783808 / 2 ^ 56) (of_int 7205759403792794 / 2 ^ 56) =
      of_int 223378541517576608 / 2 ^ 56"
    by (simp only: fadd_dyadic a)
  then have "fadd 53 3 (tenth 53) = of_int 223378541517576608 / 2 ^ 56"
    by (simp only: tenth_53 t3 [symmetric])
  then show "fadd 53 3 (tenth 53) = 6980579422424269 / 2251799813685248"
    by simp
  have "fadd 53 (of_int 144115188075855872 / 2 ^ 56) (of_int 7205759403792794 / 2 ^ 56) =
      of_int 151320947479648672 / 2 ^ 56"
    by (simp only: fadd_dyadic b)
  then have "fadd 53 2 (tenth 53) = of_int 151320947479648672 / 2 ^ 56"
    by (simp only: tenth_53 t2 [symmetric])
  then show "fadd 53 2 (tenth 53) = 4728779608739021 / 2251799813685248"
    by simp
qed

section \<open>The counters of a window\<close>

lemma fadd_restart: "fadd p (- tenth p) (tenth p) = 0"
  by (simp add: fadd_def fl_def)

lemma acc_mono:
  assumes "float_format p"
  shows "j < k \<Longrightarrow> k \<le> 51 \<Longrightarrow> acc p j < acc p k"
proof (induction k)
  case 0
  then show ?case by simp
next
  case (Suc k)
  have s: "acc p k < acc p (Suc k)"
    using assms Suc.prems(2) by (intro acc_step) simp_all
  show ?case
  proof (cases "j = k")
    case True
    then show ?thesis using s by simp
  next
    case False
    then have "acc p j < acc p k" using Suc by simp
    then show ?thesis using s by (rule less_trans)
  qed
qed

lemma acc_pos: "float_format p \<Longrightarrow> 0 < k \<Longrightarrow> k \<le> 51 \<Longrightarrow> 0 < acc p k"
  using acc_mono [of p 0 k] by simp

lemma acc_zero_iff: "float_format p \<Longrightarrow> k \<le> 51 \<Longrightarrow> (acc p k = 0) = (k = 0)"
  using acc_pos [of p k] by (cases "k = 0") auto

lemma acc_le: "float_format p \<Longrightarrow> j \<le> k \<Longrightarrow> k \<le> 51 \<Longrightarrow> acc p j \<le> acc p k"
  using acc_mono [of p j k] by (cases "j = k") auto


lemma acc_less_5: "float_format p \<Longrightarrow> n \<le> 51 \<Longrightarrow> (acc p n < 5) = (n \<le> 50)"
proof (cases "n \<le> 50")
  case True
  assume f: "float_format p"
  have "acc p n \<le> acc p 50" using f True by (intro acc_le) simp_all
  then show ?thesis using acc_50 [OF f] True by simp
next
  case False
  assume "float_format p" "n \<le> 51"
  then show ?thesis using False acc_51 [of p] by (cases "n = 51") auto
qed

lemma tick_counted:
  assumes "float_format p" "k \<le> n" "n \<le> 50"
  shows "tick p b (counted p n k) =
    (if b then (if 0 < n \<and> k = 0 then counted p 0 0 else counted p (Suc n) (Suc k))
     else counted p (Suc n) k)"
proof -
  have "(0 < acc p n) = (0 < n)"
    using acc_pos [of p n] assms by (cases "n = 0") auto
  moreover have "(acc p k = 0) = (k = 0)"
    using assms by (intro acc_zero_iff) simp_all
  ultimately show ?thesis
    by (simp add: tick_def read_pin_def counted_def Let_def fadd_restart)
qed


lemma time_count_counted [simp]: "time_count (counted p n k) = acc p n"
  by (simp add: counted_def)

lemma led_on_count_counted [simp]: "led_on_count (counted p n k) = acc p k"
  by (simp add: counted_def)

lemma window0_counted: "window0 = counted p 0 0"
  by (simp add: window0_def counted_def)

lemma listen_step:
  assumes "float_format p" "k \<le> n" "n \<le> 50"
  shows "listen p pin i (counted p n k) =
    listen p pin (Suc i)
      (if pin i then (if 0 < n \<and> k = 0 then counted p 0 0 else counted p (Suc n) (Suc k))
       else counted p (Suc n) k)"
proof -
  have "acc p n < 5" using assms by (simp add: acc_less_5)
  then show ?thesis
    by (subst listen.simps) (simp add: tick_counted [OF assms])
qed

lemma listen_stop:
  assumes "float_format p"
  shows "listen p pin i (counted p 51 k) = Some (counted p 51 k, i)"
proof -
  have "\<not> acc p 51 < 5" using assms acc_51 [of p] by simp
  then show ?thesis by (subst listen.simps) simp
qed


lemma ons_steady_on: "ons steady_on i n = n"
  by (induction n arbitrary: i) (simp_all add: steady_on_def)

lemma listen_counting_exact:
  assumes "float_format p"
  shows "0 < k \<Longrightarrow> k \<le> n \<Longrightarrow> n \<le> 51 \<Longrightarrow>
    listen p pin i (counted p n k) = Some (counted p 51 (k + ons pin i (51 - n)), i + (51 - n))"
proof (induction "51 - n" arbitrary: n k i)
  case 0
  then have "n = 51" by simp
  then show ?case using listen_stop [OF assms] by simp
next
  case (Suc m)
  then have n: "n \<le> 50" and m: "m = 51 - Suc n" by simp_all
  have u: "ons pin i (51 - n) = (if pin i then 1 else 0) + ons pin (Suc i) (51 - Suc n)"
    using Suc.hyps(2) [symmetric] m by simp
  have i: "Suc i + (51 - Suc n) = i + (51 - n)" using n by simp
  have ih: "listen p pin (Suc i) (counted p (Suc n) k') =
      Some (counted p 51 (k' + ons pin (Suc i) (51 - Suc n)), Suc i + (51 - Suc n))"
    if "0 < k'" "k' \<le> Suc n" for k'
    using m that n by (intro Suc.hyps(1)) simp_all
  show ?case
    using Suc.prems n ih [of k] ih [of "Suc k"]
    by (subst listen_step [OF assms]) (auto simp add: u i)
qed


lemma listen_window_off:
  assumes "float_format p"
  shows "n \<le> 51 \<Longrightarrow> \<forall>j<51 - n. \<not> pin (i + j) \<Longrightarrow>
    listen p pin i (counted p n 0) = Some (counted p 51 0, i + (51 - n))"
proof (induction "51 - n" arbitrary: n i)
  case 0
  then have "n = 51" by simp
  then show ?case using listen_stop [OF assms] by simp
next
  case (Suc m)
  then have n: "n \<le> 50" and m: "m = 51 - Suc n" by simp_all
  have off: "\<not> pin i" using Suc.prems(2) [rule_format, of 0] n by simp
  have "\<not> pin (Suc i + j)" if "j < 51 - Suc n" for j
    using Suc.prems(2) [rule_format, of "Suc j"] that by simp
  then have "listen p pin (Suc i) (counted p (Suc n) 0) =
      Some (counted p 51 0, Suc i + (51 - Suc n))"
    using m n by (intro Suc.hyps(1)) simp_all
  moreover have "Suc i + (51 - Suc n) = i + (51 - n)" using n by simp
  ultimately show ?case
    using off n by (subst listen_step [OF assms]) auto
qed

lemma listen_all_off:
  assumes "float_format p" "\<forall>j. \<not> pin (i + j)"
  shows "listen p pin i (counted p 0 0) = Some (counted p 51 0, i + 51)"
  using listen_window_off [OF assms(1), of 0 pin i] assms(2) by simp

lemma listen_first_on_exact:
  assumes "float_format p" "pin i"
  shows "listen p pin i window0 = Some (counted p 51 (Suc (ons pin (Suc i) 50)), i + 51)"
proof -
  have "listen p pin i (counted p 0 0) = listen p pin (Suc i) (counted p 1 1)"
    using assms(2) by (subst listen_step [OF assms(1)]) simp_all
  also have "\<dots> = Some (counted p 51 (1 + ons pin (Suc i) (51 - 1)), Suc i + (51 - 1))"
    using assms(1) by (rule listen_counting_exact) simp_all
  finally show ?thesis by (simp add: window0_counted [of p])
qed








lemma passes_counted:
  assumes "float_format p"
  shows "k \<le> n \<Longrightarrow> n \<le> 51 \<Longrightarrow>
    \<exists>n' k'. k' \<le> n' \<and> n' \<le> 51 \<and> passes p pin i m (counted p n k) = counted p n' k'"
proof (induction m arbitrary: i n k)
  case 0
  then show ?case by auto
next
  case (Suc m)
  show ?case
  proof (cases "n = 51")
    case True
    then have "\<not> acc p n < 5" using acc_51 [OF assms] by simp
    then show ?thesis using Suc.prems by auto
  next
    case False
    then have n: "n \<le> 50" using Suc.prems by simp
    then have lt: "acc p n < 5" using assms by (simp add: acc_less_5)
    have ih: "\<exists>n' k'. k' \<le> n' \<and> n' \<le> 51 \<and>
        passes p pin (Suc i) m (counted p n'' k'') = counted p n' k'"
      if "k'' \<le> n''" "n'' \<le> 51" for n'' k''
      using that by (rule Suc.IH)
    show ?thesis
      using lt Suc.prems(1) n ih [of 0 0] ih [of "Suc k" "Suc n"] ih [of k "Suc n"]
      by (simp add: tick_counted [OF assms Suc.prems(1) n])
  qed
qed



lemma listen_pulses:
  assumes "float_format p"
  shows "listen p pulses 0 window0 = Some (counted p 51 5, 51)"
    and "listen p pulses 51 window0 = Some (counted p 51 0, 102)"
    and "listen p pulses 102 window0 = Some (counted p 51 5, 153)"
proof -
  have a: "ons pulses (Suc 0) 50 = 4" by code_simp
  have "pulses 0" by (simp add: pulses_def)
  then show "listen p pulses 0 window0 = Some (counted p 51 5, 51)"
    using listen_first_on_exact [OF assms, of pulses 0] by (simp add: a)
  have "\<forall>j<51 - 0. \<not> pulses (51 + j)" by (simp add: pulses_def)
  then show "listen p pulses 51 window0 = Some (counted p 51 0, 102)"
    using listen_window_off [OF assms, of 0 pulses 51] by (simp add: window0_counted [of p])
  have b: "ons pulses 103 50 = 4" by code_simp
  have "pulses 102" by (simp add: pulses_def)
  then show "listen p pulses 102 window0 = Some (counted p 51 5, 153)"
    using listen_first_on_exact [OF assms, of pulses 102] by (simp add: b)
qed

subsection \<open>The window loop: claims C7, C9 and C4\<close>

text \<open>
  C7. On a tick whose reading is asserted: if \<open>time_count\<close> is positive and
  \<open>led_on_count\<close> is still zero, \<open>time_count\<close> is set to minus one tick (0.1 up to the
  rounding of the literal), so that the increment that ends the tick brings it to exactly
  0, and \<open>led_on_count\<close> is not incremented; on every other asserted tick \<open>led_on_count\<close>
  grows by one tick, and so does \<open>time_count\<close>: the new value is the old one plus 0.1 up
  to the rounding of the float format. Counted in ticks, for either format: after \<open>n\<close>
  passes with \<open>k\<close> asserted ticks counted, an asserted tick restarts the window if
  \<open>0 < n\<close> and \<open>k = 0\<close>, and otherwise it is pass \<open>n + 1\<close> and counted tick \<open>k + 1\<close>.
\<close>

theorem tick_asserted:
  "(0 < time_count w \<and> led_on_count w = 0 \<longrightarrow>
      read_pin p True w = w\<lparr>time_count := - tenth p\<rparr> \<and>
      \<bar>tenth p - 1 / 10\<bar> \<le> 1 / 10 / 2 ^ p \<and>
      tick p True w = w\<lparr>time_count := 0\<rparr>) \<and>
   (\<not> (0 < time_count w \<and> led_on_count w = 0) \<longrightarrow>
      read_pin p True w = w\<lparr>led_on_count := fadd p (led_on_count w) (tenth p)\<rparr> \<and>
      tick p True w = \<lparr>time_count = fadd p (time_count w) (tenth p),
                       led_on_count = fadd p (led_on_count w) (tenth p)\<rparr> \<and>
      \<bar>led_on_count (tick p True w) - (led_on_count w + 1 / 10)\<bar>
        \<le> (\<bar>led_on_count w\<bar> + 3 / 10) / 2 ^ p \<and>
      \<bar>time_count (tick p True w) - (time_count w + 1 / 10)\<bar>
        \<le> (\<bar>time_count w\<bar> + 3 / 10) / 2 ^ p) \<and>
   (float_format p \<and> k \<le> n \<and> n \<le> 50 \<longrightarrow>
      tick p True (counted p n k) =
        (if 0 < n \<and> k = 0 then counted p 0 0 else counted p (Suc n) (Suc k)))"
proof (intro conjI impI)
  assume a: "0 < time_count w \<and> led_on_count w = 0"
  then show "read_pin p True w = w\<lparr>time_count := - tenth p\<rparr>"
    by (simp add: read_pin_def)
  show "\<bar>tenth p - 1 / 10\<bar> \<le> 1 / 10 / 2 ^ p" by (rule tenth_error)
  from a show "tick p True w = w\<lparr>time_count := 0\<rparr>"
    by (simp add: tick_def read_pin_def Let_def fadd_restart)
next
  assume a: "\<not> (0 < time_count w \<and> led_on_count w = 0)"
  then have r: "read_pin p True w = w\<lparr>led_on_count := fadd p (led_on_count w) (tenth p)\<rparr>"
    by (auto simp add: read_pin_def)
  then show "read_pin p True w = w\<lparr>led_on_count := fadd p (led_on_count w) (tenth p)\<rparr>" .
  show t: "tick p True w = \<lparr>time_count = fadd p (time_count w) (tenth p),
      led_on_count = fadd p (led_on_count w) (tenth p)\<rparr>"
    by (simp add: tick_def r Let_def)
  show "\<bar>led_on_count (tick p True w) - (led_on_count w + 1 / 10)\<bar>
      \<le> (\<bar>led_on_count w\<bar> + 3 / 10) / 2 ^ p"
    unfolding t using fadd_tenth_error [of p "led_on_count w"] by simp
  show "\<bar>time_count (tick p True w) - (time_count w + 1 / 10)\<bar>
      \<le> (\<bar>time_count w\<bar> + 3 / 10) / 2 ^ p"
    unfolding t using fadd_tenth_error [of p "time_count w"] by simp
next
  assume "float_format p \<and> k \<le> n \<and> n \<le> 50"
  then show "tick p True (counted p n k) =
      (if 0 < n \<and> k = 0 then counted p 0 0 else counted p (Suc n) (Suc k))"
    by (simp add: tick_counted)
qed

theorem tick_asserted_witness:
  "0 < time_count \<lparr>time_count = 1 / 2, led_on_count = 0\<rparr> \<and>
   led_on_count \<lparr>time_count = 1 / 2, led_on_count = 0\<rparr> = 0 \<and>
   tick 53 True \<lparr>time_count = 1 / 2, led_on_count = 0\<rparr> = \<lparr>time_count = 0, led_on_count = 0\<rparr> \<and>
   \<not> (0 < time_count \<lparr>time_count = 3, led_on_count = 2\<rparr> \<and>
      led_on_count \<lparr>time_count = 3, led_on_count = 2\<rparr> = 0) \<and>
   tick 53 True \<lparr>time_count = 3, led_on_count = 2\<rparr> =
     \<lparr>time_count = 6980579422424269 / 2251799813685248,
      led_on_count = 4728779608739021 / 2251799813685248\<rparr> \<and>
   float_format 53 \<and> tick 53 True (counted 53 3 2) = counted 53 4 3"
proof -
  have c: "tick 53 True (counted 53 3 2) = counted 53 4 3"
    using tick_asserted [of "counted 53 3 2" 53 2 3] by (simp add: float_format_def)
  show ?thesis
    using c tick_asserted [of "\<lparr>time_count = 1 / 2, led_on_count = 0\<rparr>" 53]
      tick_asserted [of "\<lparr>time_count = 3, led_on_count = 2\<rparr>" 53]
    by (simp add: fadd_53_values float_format_def)
qed

text \<open>
  C9. In every window, whatever the pin reads, \<open>led_on_count \<le> time_count\<close> holds at the
  end of every pass of the loop, the passes that restart \<open>time_count\<close> included. It holds
  for the rounded sums of both float formats.
\<close>

theorem led_on_count_le_time_count:
  assumes "float_format p"
  shows "led_on_count (passes p pin i n window0) \<le> time_count (passes p pin i n window0)"
proof -
  obtain n' k' where "k' \<le> n'" "n' \<le> 51" "passes p pin i n (counted p 0 0) = counted p n' k'"
    using passes_counted [OF assms, of 0 0 pin i n] by auto
  then show ?thesis
    using acc_le [OF assms, of k' n'] by (simp add: window0_counted [of p])
qed

theorem led_on_count_le_time_count_witness:
  "float_format 53 \<and>
   led_on_count (passes 53 flicker 0 2 window0) \<le> time_count (passes 53 flicker 0 2 window0)"
  using led_on_count_le_time_count [of 53 flicker 0 2] by (simp add: float_format_def)




text \<open>
  How long a window is: with the pin on throughout, the loop makes 51 passes, not 50,
  since 50 rounded increments of 0.1 stay below 5; \<open>led_on_count\<close> ends above 5.
\<close>

lemma listen_steady_on_51:
  assumes "float_format p"
  shows "listen p steady_on i window0 = Some (counted p 51 51, i + 51)"
  using listen_first_on_exact [OF assms, of steady_on i]
  by (simp add: ons_steady_on steady_on_def)


section \<open>Classification and decision\<close>

lemma scan_step_in: "in_band cfg d x \<Longrightarrow> scan_step cfg d x new = gate_status_options cfg ! x"
  by (simp add: scan_step_def)

lemma scan_step_out: "\<not> in_band cfg d x \<Longrightarrow> scan_step cfg d x new = new"
  by (simp add: scan_step_def)

lemma scan_no_match:
  "\<forall>y<n. \<not> in_band cfg d y \<Longrightarrow> fold (scan_step cfg d) [0..<n] new = new"
proof (induction n)
  case 0
  show ?case by simp
next
  case (Suc n)
  then have "fold (scan_step cfg d) [0..<n] new = new" by simp
  moreover have "\<not> in_band cfg d n" using Suc.prems by simp
  ultimately show ?case by (simp add: scan_step_out)
qed

lemma scan_last_match:
  "x < n \<Longrightarrow> in_band cfg d x \<Longrightarrow> \<forall>y. x < y \<and> y < n \<longrightarrow> \<not> in_band cfg d y \<Longrightarrow>
    fold (scan_step cfg d) [0..<n] new = gate_status_options cfg ! x"
proof (induction n)
  case 0
  then show ?case by simp
next
  case (Suc n)
  show ?case
  proof (cases "x = n")
    case True
    then show ?thesis using Suc.prems(2) by (simp add: scan_step_in)
  next
    case False
    then have "x < n" using Suc.prems(1) by simp
    moreover have "\<forall>y. x < y \<and> y < n \<longrightarrow> \<not> in_band cfg d y" using Suc.prems(3) by simp
    ultimately have "fold (scan_step cfg d) [0..<n] new = gate_status_options cfg ! x"
      using Suc.prems(2) by (intro Suc.IH)
    moreover have "\<not> in_band cfg d n" using Suc.prems(3) \<open>x < n\<close> by simp
    ultimately show ?thesis by (simp add: scan_step_out)
  qed
qed

lemma scan_result:
  "n \<le> length (gate_status_options cfg) \<Longrightarrow>
    fold (scan_step cfg d) [0..<n] new \<in> insert new (set (gate_status_options cfg))"
proof (induction n)
  case 0
  show ?case by simp
next
  case (Suc n)
  then have "fold (scan_step cfg d) [0..<n] new \<in> insert new (set (gate_status_options cfg))"
    by simp
  moreover have "gate_status_options cfg ! n \<in> set (gate_status_options cfg)"
    using Suc.prems by simp
  ultimately show ?case by (cases "in_band cfg d n") (simp_all add: scan_step_in scan_step_out)
qed

text \<open>On well-formed tables the status of a window is an index of every list.\<close>

lemma classify_in_range:
  assumes "well_formed cfg"
  shows "0 \<le> classify cfg d \<and> classify cfg d < int (length (gate_status_options cfg))"
proof -
  have "classify cfg d \<in> insert 0 (set (gate_status_options cfg))"
    unfolding classify_def by (rule scan_result) simp
  then show ?thesis using assms by (auto simp add: well_formed_def Let_def)
qed

lemma well_formed_gate_tables: "well_formed gate_tables"
  by (simp add: well_formed_def gate_tables_def)

lemma classify_gate_tables:
  "classify gate_tables d =
     (if 1 / 2 \<le> d \<and> d \<le> 3 / 2 then 2 else if 2 \<le> d \<and> d \<le> 6 then 1 else 0)"
  by (simp add: classify_def gate_tables_def scan_step_def in_band_def upt_rec [of 0 3]
      upt_rec [of 1 3] upt_rec [of 2 3])

lemma classify_gate_tables_range: "classify gate_tables d \<in> {0, 1, 2}"
  by (simp add: classify_gate_tables)

lemma flags_gate_tables:
  "flag (gate_status_report gate_tables) 0 = False"
  "flag (gate_status_report gate_tables) 1 = True"
  "flag (gate_status_report gate_tables) 2 = True"
  "flag (gate_status_confirm gate_tables) 0 = True"
  "flag (gate_status_confirm gate_tables) 1 = False"
  "flag (gate_status_confirm gate_tables) 2 = True"
  by (simp_all add: flag_def sub_def gate_tables_def)

lemma subs_gate_tables:
  "sub (gate_status_string gate_tables) 0 = ''Gate closed''"
  "sub (gate_status_string gate_tables) 1 = ''Gate OPEN''"
  "sub (gate_status_string gate_tables) 2 = ''Gate has an AC power or battery failure''"
  "sub (gate_status_string_repeat gate_tables) 0 = ''Gate closed''"
  "sub (gate_status_string_repeat gate_tables) 1 = ''Gate still OPEN''"
  "sub (gate_status_string_repeat gate_tables) 2 = ''Gate has an AC power or battery failure''"
  "sub (gate_status_wait gate_tables) 0 = 0"
  "sub (gate_status_wait gate_tables) 1 = 300"
  "sub (gate_status_wait gate_tables) 2 = 1800"
  by (simp_all add: sub_def gate_tables_def)

lemma options_gate_tables: "set (gate_status_options gate_tables) = {0, 1, 2}"
  by (auto simp add: gate_tables_def)

text \<open>Values of \<open>led_on_count\<close>: after one counted tick, and after five.\<close>

lemma acc_53_1: "acc 53 1 = of_int 7205759403792794 / 2 ^ 56"
proof -
  have "iacc 53 7205759403792794 1 = 7205759403792794" by code_simp
  then show ?thesis by (simp only: acc_iacc [OF tenth_53])
qed

lemma acc_5: "float_format p \<Longrightarrow> acc p 5 = 1 / 2"
proof -
  have a: "iacc 24 13421773 5 = 67108864" by code_simp
  have b: "iacc 53 7205759403792794 5 = 36028797018963968" by code_simp
  assume "float_format p"
  then show ?thesis
    unfolding float_format_def
    by (auto simp add: acc_iacc [OF tenth_24] acc_iacc [OF tenth_53] a b)
qed

subsection \<open>Classification: claims C5 and C2\<close>

text \<open>
  C5. The scan goes through the table in list order and the last entry whose band
  \<open>[lo, hi]\<close> (both ends included) contains \<open>d\<close> decides: if entry \<open>x\<close> contains \<open>d\<close> and
  no entry after it does, the status is that of \<open>x\<close>, whatever the entries before \<open>x\<close>
  are; in particular when \<open>x\<close> is the only entry that contains \<open>d\<close>.
\<close>

theorem classify_last_match:
  assumes "well_formed cfg"
    and "x < length (gate_status_options cfg)" and "in_band cfg d x"
  shows "((\<forall>y. x < y \<and> y < length (gate_status_options cfg) \<longrightarrow> \<not> in_band cfg d y) \<longrightarrow>
           classify cfg d = gate_status_options cfg ! x) \<and>
         ((\<forall>y<length (gate_status_options cfg). y \<noteq> x \<longrightarrow> \<not> in_band cfg d y) \<longrightarrow>
           classify cfg d = gate_status_options cfg ! x)"
  using assms(2,3) scan_last_match [of x "length (gate_status_options cfg)" cfg d 0]
  by (simp add: classify_def)

theorem classify_last_match_witness:
  "well_formed gate_tables \<and>
   length (gate_status_options gate_tables) = 3 \<and> in_band gate_tables 3 1 \<and>
   \<not> in_band gate_tables 3 0 \<and> \<not> in_band gate_tables 3 2 \<and>
   classify gate_tables 3 = gate_status_options gate_tables ! 1 \<and>
   well_formed (gate_tables\<lparr>gate_status_time := [(0, 0), (2, 6), (1 / 2, 5 / 2)]\<rparr>) \<and>
   in_band (gate_tables\<lparr>gate_status_time := [(0, 0), (2, 6), (1 / 2, 5 / 2)]\<rparr>) 2 1 \<and>
   in_band (gate_tables\<lparr>gate_status_time := [(0, 0), (2, 6), (1 / 2, 5 / 2)]\<rparr>) 2 2 \<and>
   classify (gate_tables\<lparr>gate_status_time := [(0, 0), (2, 6), (1 / 2, 5 / 2)]\<rparr>) 2 = 2"
proof -
  let ?over = "gate_tables\<lparr>gate_status_time := [(0, 0), (2, 6), (1 / 2, 5 / 2)]\<rparr>"
  have w: "well_formed ?over"
    by (simp add: well_formed_def gate_tables_def)
  have a: "(1::nat) < length (gate_status_options gate_tables)" "in_band gate_tables 3 1"
    by (simp_all add: gate_tables_def in_band_def)
  have b: "\<forall>y<length (gate_status_options gate_tables). y \<noteq> 1 \<longrightarrow> \<not> in_band gate_tables 3 y"
    by (auto simp add: gate_tables_def in_band_def less_Suc_eq numeral_3_eq_3)
  have c: "(2::nat) < length (gate_status_options ?over)" "in_band ?over 2 2" "in_band ?over 2 1"
    by (simp_all add: gate_tables_def in_band_def)
  have d: "\<forall>y. 2 < y \<and> y < length (gate_status_options ?over) \<longrightarrow> \<not> in_band ?over 2 y"
    by (auto simp add: gate_tables_def)
  have "classify gate_tables 3 = gate_status_options gate_tables ! 1"
    using classify_last_match [OF well_formed_gate_tables a] b by blast
  moreover have "classify ?over 2 = gate_status_options ?over ! 2"
    using classify_last_match [OF w c(1,2)] d by blast
  moreover have "gate_status_options ?over ! 2 = 2" by (simp add: gate_tables_def)
  moreover have "length (gate_status_options gate_tables) = 3"
    "\<not> in_band gate_tables 3 0" "\<not> in_band gate_tables 3 2"
    by (simp_all add: gate_tables_def in_band_def)
  ultimately show ?thesis using a c w well_formed_gate_tables by simp
qed

text \<open>
  C2, as stated: a window whose \<open>led_on_count\<close> is in no band is treated as a window of
  the current status. It is not. After one counted tick \<open>led_on_count\<close> is in no band;
  with the gate open (status 1), notified 1000 seconds ago, the claim has the cycle send
  ``Gate still OPEN'' and leave nothing to be confirmed, whereas the cycle sends nothing
  and notes status 0 (closed) as to be confirmed.
\<close>

theorem no_band_is_not_unchanged:
  "\<not> in_band gate_tables (acc 53 1) 0 \<and> \<not> in_band gate_tables (acc 53 1) 1 \<and>
   \<not> in_band gate_tables (acc 53 1) 2 \<and>
   cycle gate_tables (acc 53 1, 1000, 1001)
     \<lparr>gate_status = 1, gate_status_tobeconfirmed = - 1, gate_status_lastupdate = 0\<rparr> =
     (\<lparr>gate_status = 1, gate_status_tobeconfirmed = 0, gate_status_lastupdate = 0\<rparr>, []) \<and>
   decide gate_tables 1 1000 1001
     \<lparr>gate_status = 1, gate_status_tobeconfirmed = - 1, gate_status_lastupdate = 0\<rparr> =
     (\<lparr>gate_status = 1, gate_status_tobeconfirmed = - 1, gate_status_lastupdate = 1001\<rparr>,
      [''Gate still OPEN''])"
proof -
  have "\<not> in_band gate_tables (acc 53 1) 0" "\<not> in_band gate_tables (acc 53 1) 1"
    "\<not> in_band gate_tables (acc 53 1) 2"
    unfolding acc_53_1 by (simp_all add: in_band_def gate_tables_def)
  moreover have "classify gate_tables (acc 53 1) = 0"
    unfolding acc_53_1 by (simp add: classify_gate_tables)
  ultimately show ?thesis
    by (simp add: cycle_def decide_def flags_gate_tables subs_gate_tables)
qed

text \<open>
  C2, amended. A window whose \<open>led_on_count\<close> is in no band has status 0 (closed), the
  value \<open>new_gate_status\<close> is set to before every scan (line 159), and the cycle is the
  one of a window of status 0.
\<close>

theorem no_band_is_closed:
  assumes "well_formed cfg"
    and "\<forall>x<length (gate_status_options cfg). \<not> in_band cfg d x"
  shows "classify cfg d = 0 \<and> cycle cfg (d, now, later) s = decide cfg 0 now later s"
  using assms(2) scan_no_match [of "length (gate_status_options cfg)" cfg d 0]
  by (simp add: classify_def cycle_def)

theorem no_band_is_closed_witness:
  "well_formed gate_tables \<and>
   length (gate_status_options gate_tables) = 3 \<and>
   \<not> in_band gate_tables (acc 53 1) 0 \<and> \<not> in_band gate_tables (acc 53 1) 1 \<and>
   \<not> in_band gate_tables (acc 53 1) 2 \<and>
   classify gate_tables (acc 53 1) = 0 \<and>
   cycle gate_tables (acc 53 1, 1000, 1001)
     \<lparr>gate_status = 1, gate_status_tobeconfirmed = - 1, gate_status_lastupdate = 0\<rparr> =
   decide gate_tables 0 1000 1001
     \<lparr>gate_status = 1, gate_status_tobeconfirmed = - 1, gate_status_lastupdate = 0\<rparr>"
proof -
  have a: "\<forall>x<length (gate_status_options gate_tables). \<not> in_band gate_tables (acc 53 1) x"
    unfolding acc_53_1
    by (auto simp add: gate_tables_def in_band_def less_Suc_eq numeral_3_eq_3)
  have b: "length (gate_status_options gate_tables) = 3"
    by (simp add: gate_tables_def)
  have "\<not> in_band gate_tables (acc 53 1) 0" "\<not> in_band gate_tables (acc 53 1) 1"
    "\<not> in_band gate_tables (acc 53 1) 2"
    using a b by simp_all
  then show ?thesis
    using b well_formed_gate_tables
      no_band_is_closed [OF well_formed_gate_tables a, of 1000 1001
        "\<lparr>gate_status = 1, gate_status_tobeconfirmed = - 1, gate_status_lastupdate = 0\<rparr>"]
    by simp
qed

subsection \<open>The decision: claims C3, C6, C8, C10 and C1\<close>

lemma run_Cons:
  "run cfg ((d, now, later) # xs) s =
     (fst (run cfg xs (fst (cycle cfg (d, now, later) s))),
      snd (cycle cfg (d, now, later) s) @ snd (run cfg xs (fst (cycle cfg (d, now, later) s))))"
  by (simp split: prod.splits)

lemma decide_unchanged:
  "decide cfg (gate_status s) now later s =
     (if flag (gate_status_report cfg) (gate_status s) \<and>
         gate_status_lastupdate s + sub (gate_status_wait cfg) (gate_status s) \<le> now
      then (s\<lparr>gate_status_lastupdate := later\<rparr>,
            [sub (gate_status_string_repeat cfg) (gate_status s)])
      else (s, []))"
  by (simp add: decide_def)

lemma decide_changed:
  assumes "gate_status (fst (decide cfg new now later s)) \<noteq> gate_status s"
  shows "gate_status (fst (decide cfg new now later s)) = new \<and>
    gate_status_lastupdate (fst (decide cfg new now later s)) = now \<and>
    snd (decide cfg new now later s) =
      (if flag (gate_status_report cfg) new then [sub (gate_status_string cfg) new] else [])"
  using assms by (simp add: decide_def split: if_splits)

text \<open>
  What a commit without confirmation does on any tables: \<open>gate_status_tobeconfirmed\<close> is
  reset together with the notification (line 238 is inside the \<open>if\<close> of line 234), and
  kept when the status is not reported.
\<close>

lemma decide_without_confirmation:
  assumes "new \<noteq> gate_status s" and "\<not> flag (gate_status_confirm cfg) new"
  shows "decide cfg new now later s =
    (s\<lparr>gate_status := new, gate_status_lastupdate := now,
        gate_status_tobeconfirmed :=
          (if flag (gate_status_report cfg) new then - 1 else gate_status_tobeconfirmed s)\<rparr>,
     if flag (gate_status_report cfg) new then [sub (gate_status_string cfg) new] else [])"
  using assms by (simp add: decide_def)

text \<open>A status that needs confirmation is committed only when it is the one noted.\<close>

lemma decide_confirmed:
  assumes "flag (gate_status_confirm cfg) new"
    and "gate_status (fst (decide cfg new now later s)) \<noteq> gate_status s"
  shows "gate_status_tobeconfirmed s = new"
  using assms by (simp add: decide_def split: if_splits)

lemma decide_unreported:
  "\<not> flag (gate_status_report cfg) new \<Longrightarrow> snd (decide cfg new now later s) = []"
  by (auto simp add: decide_def)

lemma decide_messages:
  "m \<in> set (snd (decide cfg new now later s)) \<Longrightarrow>
     flag (gate_status_report cfg) new \<and> m \<in> labels cfg new"
  by (simp add: decide_def labels_def split: if_splits)

lemma run_quiet:
  "\<forall>x\<in>set xs. classify cfg (fst x) = gate_status s \<and>
      fst (snd x) < gate_status_lastupdate s + sub (gate_status_wait cfg) (gate_status s) \<Longrightarrow>
   run cfg xs s = (s, [])"
proof (induction xs)
  case Nil
  show ?case by simp
next
  case (Cons x xs)
  obtain d now later where x: "x = (d, now, later)" by (cases x) auto
  have "classify cfg d = gate_status s"
    and "now < gate_status_lastupdate s + sub (gate_status_wait cfg) (gate_status s)"
    using Cons.prems by (simp_all add: x)
  then have "cycle cfg (d, now, later) s = (s, [])"
    by (simp add: cycle_def decide_unchanged)
  moreover have "run cfg xs s = (s, [])" using Cons by simp
  ultimately show ?case by (simp add: x run_Cons del: run.simps)
qed

lemma run_messages:
  "m \<in> set (snd (run cfg xs s)) \<Longrightarrow>
     \<exists>x\<in>set xs. flag (gate_status_report cfg) (classify cfg (fst x)) \<and>
       m \<in> labels cfg (classify cfg (fst x))"
proof (induction xs arbitrary: s)
  case Nil
  then show ?case by simp
next
  case (Cons x xs)
  obtain d now later where x: "x = (d, now, later)" by (cases x) auto
  from Cons.prems consider
    "m \<in> set (snd (decide cfg (classify cfg d) now later s))" |
    "m \<in> set (snd (run cfg xs (fst (cycle cfg (d, now, later) s))))"
    by (auto simp add: x run_Cons cycle_def simp del: run.simps)
  then show ?case
  proof cases
    case 1
    then show ?thesis using decide_messages [of m cfg "classify cfg d" now later s]
      by (simp add: x)
  next
    case 2
    then show ?thesis using Cons.IH by auto
  qed
qed

lemma decide_pending_ok:
  assumes "new \<in> {0, 1, 2}" and "pending_ok gate_tables s"
  shows "pending_ok gate_tables (fst (decide gate_tables new now later s))"
  using assms
  by (auto simp add: pending_ok_def decide_def flags_gate_tables options_gate_tables)

lemma run_pending_ok:
  "pending_ok gate_tables s \<Longrightarrow> pending_ok gate_tables (fst (run gate_tables xs s))"
proof (induction xs arbitrary: s)
  case Nil
  then show ?case by simp
next
  case (Cons x xs)
  obtain d now later where x: "x = (d, now, later)" by (cases x) auto
  have "pending_ok gate_tables (fst (decide gate_tables (classify gate_tables d) now later s))"
    using classify_gate_tables_range Cons.prems by (rule decide_pending_ok)
  then show ?case by (simp add: x run_Cons cycle_def Cons.IH del: run.simps)
qed




lemma well_formed_quiet_tables: "well_formed quiet_tables"
  by (simp add: well_formed_def quiet_tables_def gate_tables_def)


text \<open>
  C6. A cycle whose window has the current status sends a message exactly when the
  status is reported and the clock has reached \<open>gate_status_lastupdate\<close> plus the wait of
  the status; the message is the repeated-occurrence one, and \<open>gate_status_lastupdate\<close>
  becomes the clock reading taken after sending; nothing else changes. No other cycle
  that keeps the current status sends a message. A cycle that
  changes the current status sets \<open>gate_status_lastupdate\<close> to the clock reading and sends
  the first-occurrence message if the new status is reported, whatever the wait. And as
  long as the windows keep the current status and the clock stays below
  \<open>gate_status_lastupdate\<close> plus the wait, no message is sent and the state stays as it is.
\<close>

theorem renotify_after_wait_commit_at_once:
  assumes "well_formed cfg"
  shows
  "(classify cfg d = gate_status s \<longrightarrow>
      cycle cfg (d, now, later) s =
        (if flag (gate_status_report cfg) (gate_status s) \<and>
            gate_status_lastupdate s + sub (gate_status_wait cfg) (gate_status s) \<le> now
         then (s\<lparr>gate_status_lastupdate := later\<rparr>,
               [sub (gate_status_string_repeat cfg) (gate_status s)])
         else (s, []))) \<and>
   (gate_status (fst (cycle cfg (d, now, later) s)) \<noteq> gate_status s \<longrightarrow>
      gate_status (fst (cycle cfg (d, now, later) s)) = classify cfg d \<and>
      gate_status_lastupdate (fst (cycle cfg (d, now, later) s)) = now \<and>
      snd (cycle cfg (d, now, later) s) =
        (if flag (gate_status_report cfg) (classify cfg d)
         then [sub (gate_status_string cfg) (classify cfg d)] else [])) \<and>
   (gate_status (fst (cycle cfg (d, now, later) s)) = gate_status s \<and>
    snd (cycle cfg (d, now, later) s) \<noteq> [] \<longrightarrow>
      classify cfg d = gate_status s \<and> flag (gate_status_report cfg) (gate_status s) \<and>
      gate_status_lastupdate s + sub (gate_status_wait cfg) (gate_status s) \<le> now) \<and>
   ((\<forall>x\<in>set xs. classify cfg (fst x) = gate_status s \<and>
        fst (snd x) < gate_status_lastupdate s + sub (gate_status_wait cfg) (gate_status s)) \<longrightarrow>
      run cfg xs s = (s, []))"
proof (intro conjI impI)
  assume "classify cfg d = gate_status s"
  then show "cycle cfg (d, now, later) s =
      (if flag (gate_status_report cfg) (gate_status s) \<and>
          gate_status_lastupdate s + sub (gate_status_wait cfg) (gate_status s) \<le> now
       then (s\<lparr>gate_status_lastupdate := later\<rparr>,
             [sub (gate_status_string_repeat cfg) (gate_status s)])
       else (s, []))"
    using decide_unchanged [of cfg s now later] by (simp add: cycle_def)
next
  assume a: "gate_status (fst (cycle cfg (d, now, later) s)) \<noteq> gate_status s"
  then have "gate_status (fst (decide cfg (classify cfg d) now later s)) \<noteq> gate_status s"
    by (simp add: cycle_def)
  then have b: "gate_status (fst (decide cfg (classify cfg d) now later s)) = classify cfg d \<and>
      gate_status_lastupdate (fst (decide cfg (classify cfg d) now later s)) = now \<and>
      snd (decide cfg (classify cfg d) now later s) =
        (if flag (gate_status_report cfg) (classify cfg d)
         then [sub (gate_status_string cfg) (classify cfg d)] else [])"
    by (rule decide_changed)
  from b show "gate_status (fst (cycle cfg (d, now, later) s)) = classify cfg d"
    by (simp add: cycle_def)
  from b show "gate_status_lastupdate (fst (cycle cfg (d, now, later) s)) = now"
    by (simp add: cycle_def)
  from b show "snd (cycle cfg (d, now, later) s) =
      (if flag (gate_status_report cfg) (classify cfg d)
       then [sub (gate_status_string cfg) (classify cfg d)] else [])"
    by (simp add: cycle_def)
next
  assume a: "gate_status (fst (cycle cfg (d, now, later) s)) = gate_status s \<and>
      snd (cycle cfg (d, now, later) s) \<noteq> []"
  then have c: "classify cfg d = gate_status s"
    by (auto simp add: cycle_def decide_def split: if_splits)
  then show "classify cfg d = gate_status s" .
  from a c show "flag (gate_status_report cfg) (gate_status s)"
    by (auto simp add: cycle_def decide_unchanged split: if_splits)
  from a c show "gate_status_lastupdate s + sub (gate_status_wait cfg) (gate_status s) \<le> now"
    by (auto simp add: cycle_def decide_unchanged split: if_splits)
next
  assume "\<forall>x\<in>set xs. classify cfg (fst x) = gate_status s \<and>
      fst (snd x) < gate_status_lastupdate s + sub (gate_status_wait cfg) (gate_status s)"
  then show "run cfg xs s = (s, [])" by (rule run_quiet)
qed

theorem renotify_after_wait_commit_at_once_witness:
  "well_formed gate_tables \<and>
   cycle gate_tables (3, 300, 302)
     \<lparr>gate_status = 1, gate_status_tobeconfirmed = - 1, gate_status_lastupdate = 0\<rparr> =
     (\<lparr>gate_status = 1, gate_status_tobeconfirmed = - 1, gate_status_lastupdate = 302\<rparr>,
      [''Gate still OPEN'']) \<and>
   cycle gate_tables (3, 299, 301)
     \<lparr>gate_status = 1, gate_status_tobeconfirmed = - 1, gate_status_lastupdate = 0\<rparr> =
     (\<lparr>gate_status = 1, gate_status_tobeconfirmed = - 1, gate_status_lastupdate = 0\<rparr>, []) \<and>
   gate_status (fst (cycle gate_tables (3, 5, 6) (init 0))) \<noteq> gate_status (init 0) \<and>
   gate_status_lastupdate (fst (cycle gate_tables (3, 5, 6) (init 0))) = 5 \<and>
   snd (cycle gate_tables (3, 5, 6) (init 0)) = [''Gate OPEN''] \<and>
   run gate_tables [(3, 100, 100), (3, 299, 299)]
     \<lparr>gate_status = 1, gate_status_tobeconfirmed = - 1, gate_status_lastupdate = 0\<rparr> =
     (\<lparr>gate_status = 1, gate_status_tobeconfirmed = - 1, gate_status_lastupdate = 0\<rparr>, [])"
proof -
  let ?s = "\<lparr>gate_status = 1, gate_status_tobeconfirmed = - 1, gate_status_lastupdate = 0\<rparr>"
  note w = well_formed_gate_tables
  have c3: "classify gate_tables 3 = 1" by (simp add: classify_gate_tables)
  have a: "cycle gate_tables (3, 300, 302) ?s =
      (?s\<lparr>gate_status_lastupdate := 302\<rparr>, [''Gate still OPEN''])"
    using renotify_after_wait_commit_at_once [OF w, of 3 ?s 300 302 "[]"]
    by (simp add: c3 flags_gate_tables subs_gate_tables)
  have b: "cycle gate_tables (3, 299, 301) ?s = (?s, [])"
    using renotify_after_wait_commit_at_once [OF w, of 3 ?s 299 301 "[]"]
    by (simp add: c3 flags_gate_tables subs_gate_tables)
  have n: "gate_status (fst (cycle gate_tables (3, 5, 6) (init 0))) \<noteq> gate_status (init 0)"
    by (simp add: cycle_def c3 decide_def init_def flags_gate_tables)
  then have c: "gate_status_lastupdate (fst (cycle gate_tables (3, 5, 6) (init 0))) = 5 \<and>
      snd (cycle gate_tables (3, 5, 6) (init 0)) = [''Gate OPEN'']"
    using renotify_after_wait_commit_at_once [OF w, of 3 "init 0" 5 6 "[]"]
    by (simp add: c3 flags_gate_tables subs_gate_tables)
  have "\<forall>x\<in>set [(3, 100, 100), (3, 299, 299)]. classify gate_tables (fst x) = gate_status ?s \<and>
      fst (snd x) < gate_status_lastupdate ?s + sub (gate_status_wait gate_tables) (gate_status ?s)"
    by (simp add: c3 subs_gate_tables)
  then have d: "run gate_tables [(3, 100, 100), (3, 299, 299)] ?s = (?s, [])"
    using renotify_after_wait_commit_at_once [OF w, of 3 ?s 0 0 "[(3, 100, 100), (3, 299, 299)]"]
    by blast
  show ?thesis using w a b n c d by simp
qed

text \<open>
  C8. A status that is not reported never has \<open>notify\<close> called: a cycle whose window has
  such a status sends nothing, be the status new or the current one; and every message
  sent in any number of cycles is the first-occurrence or the repeated-occurrence message
  of the status of one of the windows, a status that is reported.
\<close>

theorem unreported_status_never_notifies:
  assumes "well_formed cfg"
  shows
  "(\<not> flag (gate_status_report cfg) (classify cfg d) \<longrightarrow>
      snd (cycle cfg (d, now, later) s) = []) \<and>
   (\<forall>m\<in>set (snd (run cfg xs s)).
      \<exists>x\<in>set xs. flag (gate_status_report cfg) (classify cfg (fst x)) \<and>
        m \<in> labels cfg (classify cfg (fst x)))"
proof -
  have "snd (cycle cfg (d, now, later) s) = []"
    if "\<not> flag (gate_status_report cfg) (classify cfg d)"
    using that by (simp add: cycle_def decide_unreported)
  then show ?thesis using run_messages [of _ cfg xs s] by blast
qed

theorem unreported_status_never_notifies_witness:
  "well_formed gate_tables \<and>
   \<not> flag (gate_status_report gate_tables) (classify gate_tables 0) \<and>
   snd (cycle gate_tables (0, 1000, 1001) (init 0)) = [] \<and>
   snd (cycle gate_tables (0, 1000, 1001)
     \<lparr>gate_status = 1, gate_status_tobeconfirmed = 0, gate_status_lastupdate = 0\<rparr>) = [] \<and>
   snd (run gate_tables [(3, 10, 11)] (init 0)) = [''Gate OPEN''] \<and>
   (\<exists>x\<in>set [(3, 10, 11)]. flag (gate_status_report gate_tables) (classify gate_tables (fst x)) \<and>
      ''Gate OPEN'' \<in> labels gate_tables (classify gate_tables (fst x)))"
proof -
  note w = well_formed_gate_tables
  have f: "\<not> flag (gate_status_report gate_tables) (classify gate_tables 0)"
    by (simp add: classify_gate_tables flags_gate_tables)
  have r: "snd (run gate_tables [(3, 10, 11)] (init 0)) = [''Gate OPEN'']"
    by (simp add: cycle_def classify_gate_tables decide_def init_def flags_gate_tables
        subs_gate_tables)
  show ?thesis
    using w f r
      unreported_status_never_notifies [OF w, of 0 1000 1001 "init 0" "[(3, 10, 11)]"]
      unreported_status_never_notifies [OF w, of 0 1000 1001
        "\<lparr>gate_status = 1, gate_status_tobeconfirmed = 0, gate_status_lastupdate = 0\<rparr>" "[]"]
    by simp
qed

text \<open>
  C10. With the tables of \<open>read_gate\<close>, after any number of cycles from the initial state
  \<open>gate_status_tobeconfirmed\<close> is -1 or a status that needs confirmation, and it is never
  the current status.
\<close>

theorem pending_ok_always:
  "pending_ok gate_tables (fst (run gate_tables xs (init t0)))"
proof -
  have "pending_ok gate_tables (init t0)" by (simp add: pending_ok_def init_def)
  then show ?thesis by (rule run_pending_ok)
qed

theorem pending_ok_always_witness:
  "pending_ok gate_tables (fst (run gate_tables [(1 / 2, 10, 11)] (init 0))) \<and>
   fst (run gate_tables [(1 / 2, 10, 11)] (init 0)) =
     \<lparr>gate_status = 0, gate_status_tobeconfirmed = 2, gate_status_lastupdate = 0\<rparr>"
  using pending_ok_always [of "[(1 / 2, 10, 11)]" 0]
  by (simp add: cycle_def classify_gate_tables decide_def init_def flags_gate_tables)

text \<open>
  C1 says that a status that needs confirmation becomes the current status only after
  two windows in a row have it. The code commits it after two windows that are not in a
  row: the windows in between that have the current status leave
  \<open>gate_status_tobeconfirmed\<close> as it is (lines 183-201 never assign it). Here the first and
  the third window have the LED on for five ticks (0.5 s, status 2, power failure) and
  the second has it off (status 0, the current status): the third window commits status
  2 and sends its message. The theorem runs the three cycles on the three values of
  \<open>led_on_count\<close>, and it runs \<open>read_gate\<close> for three cycles on the readings of the pin.
\<close>

theorem confirmed_after_a_gap:
  "map (classify gate_tables) [1 / 2, 0, 1 / 2] = [2, 0, 2] \<and>
   run gate_tables [(1 / 2, 6, 7), (0, 12, 13), (1 / 2, 18, 19)] (init 0) =
     (\<lparr>gate_status = 2, gate_status_tobeconfirmed = - 1, gate_status_lastupdate = 18\<rparr>,
      [''Gate has an AC power or battery failure'']) \<and>
   read_gate 53 gate_tables pulses clock6 3 1 0 (init 0) =
     Some (\<lparr>gate_status = 2, gate_status_tobeconfirmed = - 1, gate_status_lastupdate = 18\<rparr>,
       [''Gate has an AC power or battery failure''])"
proof -
  have f: "float_format 53" by (simp add: float_format_def)
  have "read_gate 53 gate_tables pulses clock6 3 1 0 (init 0) =
     Some (\<lparr>gate_status = 2, gate_status_tobeconfirmed = - 1, gate_status_lastupdate = 18\<rparr>,
       [''Gate has an AC power or battery failure''])"
    by (simp add: numeral_3_eq_3 listen_pulses [OF f] acc_5 [OF f]
        cycle_def clock6_def classify_gate_tables decide_def init_def flags_gate_tables
        subs_gate_tables)
  then show ?thesis
    by (simp add: cycle_def classify_gate_tables decide_def flags_gate_tables subs_gate_tables
        init_def)
qed

end
